theory Spec2Isabelle
  imports Main "HOL-Library.Multiset"
begin

section \<open>The SQL insert generator \<^verbatim>\<open>tools/make-sql-inserts.py\<close>\<close>

text \<open>
  The script is Python 2: integers are unbounded (\<^typ>\<open>int\<close>), a \<^verbatim>\<open>str\<close> is a byte
  string (\<^typ>\<open>string\<close>), and an uncaught exception ends the process. Exceptions are
  values of \<open>error\<close>; a function that can raise returns \<open>error + 'a\<close>.
\<close>

datatype error = IOError | IndexError | ZeroDivisionError | OverflowError

subsection \<open>Flags\<close>

record flags =
  dict_filename :: string
  first_id_inclusive :: int
  last_id_exclusive :: int
  db_name :: string
  table_name :: string
  print_use_db_line :: bool

definition default_flags :: flags where
  "default_flags =
     \<lparr>dict_filename = ''/usr/share/dict/words'',
      first_id_inclusive = 0,
      last_id_exclusive = 4,
      db_name = ''sql-serv'',
      table_name = ''Medium_Size'',
      print_use_db_line = True\<rparr>"

subsection \<open>The data structure and the random source\<close>

text \<open>
  The globals \<^verbatim>\<open>words\<close> and \<^verbatim>\<open>word_index\<close>, together with the hidden state of the
  \<^verbatim>\<open>random\<close> module: \<open>rng\<close> is the infinite sequence of numbers the generator will
  deliver, \<open>rng s 0\<close> being the next one.
\<close>

record state =
  words :: "string list"
  word_index :: int
  rng :: "nat \<Rightarrow> nat"

definition initial_state :: "(nat \<Rightarrow> nat) \<Rightarrow> state" where
  "initial_state r = \<lparr>words = [], word_index = 0, rng = r\<rparr>"

text \<open>
  \<^verbatim>\<open>random.shuffle(x)\<close> of the Python 2 library:
  \<^verbatim>\<open>for i in reversed(xrange(1, len(x))): j = int(random() * (i+1)); x[i], x[j] = x[j], x[i]\<close>.
  The draw \<open>j\<close> of \<open>0 .. i\<close> is the next random number modulo \<open>i + 1\<close>.
\<close>

primrec shuffle_from :: "nat \<Rightarrow> 'a list \<Rightarrow> (nat \<Rightarrow> nat) \<Rightarrow> 'a list \<times> (nat \<Rightarrow> nat)" where
  "shuffle_from 0 xs r = (xs, r)"
| "shuffle_from (Suc k) xs r =
     (let i = Suc k;
          j = r 0 mod (i + 1)
      in shuffle_from k (xs[i := xs ! j, j := xs ! i]) (\<lambda>n. r (Suc n)))"

definition shuffle :: "'a list \<Rightarrow> (nat \<Rightarrow> nat) \<Rightarrow> 'a list \<times> (nat \<Rightarrow> nat)" where
  "shuffle xs r = shuffle_from (length xs - 1) xs r"

subsection \<open>Loading the dictionary\<close>

text \<open>
  What \<^verbatim>\<open>open(dict_filename)\<close> and the iteration over the file can do: the file does not
  open, it delivers some lines and then a read fails, or it delivers all its lines.
\<close>

datatype dict_source = Unopenable | Unreadable "string list" | Readable "string list"

definition alnum :: "char \<Rightarrow> bool" where
  "alnum c \<longleftrightarrow>
     (let n = (of_char c :: nat)
      in (48 \<le> n \<and> n \<le> 57) \<or> (97 \<le> n \<and> n \<le> 122) \<or> (65 \<le> n \<and> n \<le> 90))"

definition whitespace :: "char \<Rightarrow> bool" where
  "whitespace c \<longleftrightarrow> c \<in> set [CHR 0x20, CHR 0x09, CHR 0x0A, CHR 0x0B, CHR 0x0C, CHR 0x0D]"

definition strip :: "string \<Rightarrow> string" where
  "strip l = rev (dropWhile whitespace (rev (dropWhile whitespace l)))"

text \<open>The body of the \<^verbatim>\<open>for line in dict_file\<close> loop, and the loop.\<close>

definition add_line :: "string list \<Rightarrow> string \<Rightarrow> string list" where
  "add_line ws l =
     (let line = filter alnum l;
          line = strip line
      in if length line > 0 then ws @ [line] else ws)"

primrec read_lines :: "string list \<Rightarrow> string list \<Rightarrow> string list" where
  "read_lines ws [] = ws"
| "read_lines ws (l # ls) = read_lines (add_line ws l) ls"

definition init_data_structure :: "dict_source \<Rightarrow> state \<Rightarrow> error + state" where
  "init_data_structure src s =
     (case src of
        Unopenable \<Rightarrow> Inl IOError
      | Unreadable ls \<Rightarrow> Inl IOError
      | Readable ls \<Rightarrow>
          (let ws = read_lines (words s) ls;
               (ws', r') = shuffle ws (rng s)
           in Inr (s\<lparr>words := ws', rng := r'\<rparr>)))"

subsection \<open>Drawing words\<close>

text \<open>\<^verbatim>\<open>xs[i]\<close>: a negative index counts from the end, an index out of range raises.\<close>

definition getitem :: "'a list \<Rightarrow> int \<Rightarrow> error + 'a" where
  "getitem xs i =
     (if 0 \<le> i \<and> i < int (length xs) then Inr (xs ! nat i)
      else if - int (length xs) \<le> i \<and> i < 0 then Inr (xs ! nat (int (length xs) + i))
      else Inl IndexError)"

definition next_word :: "state \<Rightarrow> error + (string \<times> state)" where
  "next_word s =
     (case getitem (words s) (word_index s) of
        Inl e \<Rightarrow> Inl e
      | Inr word \<Rightarrow>
          (let wi = word_index s + 1 in
           if length (words s) = 0 then Inl ZeroDivisionError
           else
             (let wi = wi mod int (length (words s)) in
              if 0 = wi then
                (let (ws', r') = shuffle (words s) (rng s)
                 in Inr (word, s\<lparr>words := ws', word_index := wi, rng := r'\<rparr>))
              else Inr (word, s\<lparr>word_index := wi\<rparr>))))"

subsection \<open>Bounded text\<close>

text \<open>\<^verbatim>\<open>sep.join(xs)\<close> and the slice \<^verbatim>\<open>v[:n]\<close> (a negative \<open>n\<close> counts from the end).\<close>

fun join :: "string \<Rightarrow> string list \<Rightarrow> string" where
  "join sep [] = []"
| "join sep [x] = x"
| "join sep (x # y # ys) = x @ sep @ join sep (y # ys)"

definition slice_to :: "string \<Rightarrow> int \<Rightarrow> string" where
  "slice_to v n = (if n < 0 then take (nat (int (length v) + n)) v else take (nat n) v)"

text \<open>
  The \<^verbatim>\<open>while used < max_len\<close> loop of \<^verbatim>\<open>make_vchar\<close>, returning the locals
  \<^verbatim>\<open>chosen\<close> and \<^verbatim>\<open>used\<close> at its exit. Every round adds at least 1 to \<^verbatim>\<open>used\<close>.
\<close>

function make_vchar_loop ::
  "int \<Rightarrow> string list \<Rightarrow> int \<Rightarrow> state \<Rightarrow> error + (string list \<times> int \<times> state)" where
  "make_vchar_loop max_len chosen used s =
     (if used < max_len then
        (case next_word s of
           Inl e \<Rightarrow> Inl e
         | Inr (word, s') \<Rightarrow>
             make_vchar_loop max_len (chosen @ [word]) (used + int (length word) + 1) s')
      else Inr (chosen, used, s))"
  by pat_completeness auto
termination
  by (relation "measure (\<lambda>(max_len, chosen, used, s). nat (max_len - used))") auto

declare make_vchar_loop.simps [simp del]

definition make_vchar :: "int \<Rightarrow> state \<Rightarrow> error + (string \<times> state)" where
  "make_vchar max_len s =
     (case make_vchar_loop max_len [] 0 s of
        Inl e \<Rightarrow> Inl e
      | Inr (chosen, used, s') \<Rightarrow>
          (let vchar = join '' '' chosen in Inr (slice_to vchar max_len, s')))"

subsection \<open>Formatting a record\<close>

text \<open>\<^verbatim>\<open>%d\<close> of an integer: its decimal digits, with a minus sign when negative.\<close>

fun digits :: "nat \<Rightarrow> string" where
  "digits n = (if n < 10 then [''0123456789'' ! n] else digits (n div 10) @ [''0123456789'' ! (n mod 10)])"

declare digits.simps [simp del]

definition fmt_d :: "int \<Rightarrow> string" where
  "fmt_d i = (if i < 0 then ''-'' @ digits (nat (- i)) else digits (nat i))"

text \<open>
  \<^verbatim>\<open>float(i)\<close> of an integer: the nearest double (53 significant bits, ties to even),
  given by its value, which is an integer; \<^verbatim>\<open>OverflowError\<close> when that value would be
  \<open>2 ^ 1024\<close> or more.
\<close>

fun bit_length :: "nat \<Rightarrow> nat" where
  "bit_length n = (if n = 0 then 0 else Suc (bit_length (n div 2)))"

declare bit_length.simps [simp del]

definition float_of_int :: "int \<Rightarrow> error + int" where
  "float_of_int i =
     (let a = nat \<bar>i\<bar>;
          n = bit_length a
      in if n \<le> 53 then Inr i
         else
           (let sh = n - 53;
                q = a div 2 ^ sh;
                rest = a mod 2 ^ sh;
                half = 2 ^ (sh - 1);
                m = (if rest > half \<or> (rest = half \<and> odd q) then q + 1 else q);
                v = m * 2 ^ sh
            in if v \<ge> 2 ^ 1024 then Inl OverflowError else Inr (sgn i * int v)))"

text \<open>The values interpolated into \<^verbatim>\<open>RECORD_FORMAT\<close>, after the table name.\<close>

record row =
  part :: string
  des :: string
  seller_id :: int
  seller_name :: string
  price :: int
  notes' :: string
  stock :: int

text \<open>
  \<^verbatim>\<open>RECORD_FORMAT % (table_name, part, des, seller_id, seller_name, price, notes, stock)\<close>.
  The text \<^verbatim>\<open>%0.2f\<close> gives for a float is left open: \<open>fmt_02f\<close> maps the value of the
  float to it.
\<close>

definition record_format :: "(int \<Rightarrow> string) \<Rightarrow> string \<Rightarrow> row \<Rightarrow> string" where
  "record_format fmt_02f tn r =
     [CHR 0x0A] @ ''insert into '' @ tn @
     ''(part, description, seller_id, seller_name, price, notes, stock'' @ [CHR 0x0A] @
     '') VALUES ( '' @ [CHR 0x22] @ part r @ [CHR 0x22] @ '', '' @
     [CHR 0x22] @ des r @ [CHR 0x22] @ '', '' @ fmt_d (seller_id r) @ '', '' @
     [CHR 0x22] @ seller_name r @ [CHR 0x22] @ '', '' @ fmt_02f (price r) @ '', '' @
     [CHR 0x22] @ notes' r @ [CHR 0x22] @ '', '' @ fmt_d (stock r) @ '' '' @ [CHR 0x0A] @
     '');''"

definition two_decimals :: "int \<Rightarrow> string" where
  \<comment> \<open>What \<^verbatim>\<open>%0.2f\<close> prints for a float of integer value below \<open>10 ^ 50\<close>.\<close>
  "two_decimals v = fmt_d v @ ''.00''"

subsection \<open>The main program\<close>

text \<open>One round of the \<^verbatim>\<open>while i < last_id_exclusive\<close> loop, up to the tuple it formats.\<close>

definition make_row :: "flags \<Rightarrow> int \<Rightarrow> state \<Rightarrow> error + (row \<times> state)" where
  "make_row fl i s =
     (case make_vchar 48 s of Inl e \<Rightarrow> Inl e | Inr (part', s1) \<Rightarrow>
     (case make_vchar 2024 s1 of Inl e \<Rightarrow> Inl e | Inr (des', s2) \<Rightarrow>
     (case make_vchar 128 s2 of Inl e \<Rightarrow> Inl e | Inr (seller_name', s3) \<Rightarrow>
     (case float_of_int i of Inl e \<Rightarrow> Inl e | Inr price' \<Rightarrow>
     (case make_vchar 7168 s3 of Inl e \<Rightarrow> Inl e | Inr (notes'', s4) \<Rightarrow>
        Inr (\<lparr>part = part', des = des', seller_id = i, seller_name = seller_name',
              price = price', notes' = notes'',
              stock = (last_id_exclusive fl * 5) - i\<rparr>, s4))))))"

text \<open>
  The loop, with the lines printed so far; it returns them with the exception that ended
  the run, if any.
\<close>

function main_loop ::
  "(int \<Rightarrow> string) \<Rightarrow> flags \<Rightarrow> int \<Rightarrow> string list \<Rightarrow> state \<Rightarrow> string list \<times> error option" where
  "main_loop fmt_02f fl i out s =
     (if i < last_id_exclusive fl then
        (case make_row fl i s of
           Inl e \<Rightarrow> (out, Some e)
         | Inr (r, s') \<Rightarrow>
             main_loop fmt_02f fl (i + 1) (out @ [record_format fmt_02f (table_name fl) r]) s')
      else (out, None))"
  by pat_completeness auto
termination
  by (relation "measure (\<lambda>(fmt_02f, fl, i, out, s). nat (last_id_exclusive fl - i))") auto

declare main_loop.simps [simp del]

text \<open>
  \<open>fs\<close> is the file system: what opening and reading each path does. \<open>r\<close> is the random
  source the run starts with.
\<close>

definition main ::
  "(int \<Rightarrow> string) \<Rightarrow> flags \<Rightarrow> (string \<Rightarrow> dict_source) \<Rightarrow> (nat \<Rightarrow> nat) \<Rightarrow> string list \<times> error option" where
  "main fmt_02f fl fs r =
     (case init_data_structure (fs (dict_filename fl)) (initial_state r) of
        Inl e \<Rightarrow> ([], Some e)
      | Inr s \<Rightarrow>
          (let out = (if print_use_db_line fl then [''use '' @ db_name fl @ '';''] else [])
           in main_loop fmt_02f fl (first_id_inclusive fl) out s))"

subsection \<open>Notions used by the properties\<close>

text \<open>The pool can be sampled: it is not empty and the cursor points into it.\<close>

definition pool_ok :: "state \<Rightarrow> bool" where
  "pool_ok s \<longleftrightarrow> words s \<noteq> [] \<and> 0 \<le> word_index s \<and> word_index s < int (length (words s))"

text \<open>What a list of chosen words adds to \<^verbatim>\<open>used\<close>: each length plus one separator.\<close>

definition cost :: "string list \<Rightarrow> int" where
  "cost ws = (\<Sum>w\<leftarrow>ws. int (length w) + 1)"

text \<open>\<open>n\<close> successive calls of \<^verbatim>\<open>next_word\<close>, with the words they return in order.\<close>

primrec next_words :: "nat \<Rightarrow> state \<Rightarrow> error + (string list \<times> state)" where
  "next_words 0 s = Inr ([], s)"
| "next_words (Suc n) s =
     (case next_word s of
        Inl e \<Rightarrow> Inl e
      | Inr (w, s') \<Rightarrow>
          (case next_words n s' of
             Inl e \<Rightarrow> Inl e
           | Inr (ws, s'') \<Rightarrow> Inr (w # ws, s'')))"

text \<open>The line printed before the records, when the flag asks for it.\<close>

definition use_lines :: "flags \<Rightarrow> string list" where
  "use_lines fl = (if print_use_db_line fl then [''use '' @ db_name fl @ '';''] else [])"

text \<open>Concrete inputs for the examples: a random source, a file system, a pool.\<close>

definition zeros :: "nat \<Rightarrow> nat" where
  "zeros n = 0"

definition one_file :: "string \<Rightarrow> dict_source \<Rightarrow> string \<Rightarrow> dict_source" where
  "one_file path src p = (if p = path then src else Unopenable)"

definition pool4 :: state where
  "pool4 = \<lparr>words = [''ab'', ''cd'', ''ef'', ''gh''], word_index = 0, rng = zeros\<rparr>"

text \<open>
  Two dictionary files, one of three words and one of punctuation and blank lines only,
  and the file system that has a given dictionary at the default path.
\<close>

definition abc_lines :: "string list" where
  "abc_lines = [''alpha'' @ [CHR 0x0A], ''beta'' @ [CHR 0x0A], ''gamma'' @ [CHR 0x0A]]"

definition blank_lines :: "string list" where
  "blank_lines = [''...'' @ [CHR 0x0A], [CHR 0x0A], '' -- '']"

definition dict_is :: "dict_source \<Rightarrow> string \<Rightarrow> dict_source" where
  "dict_is src = one_file ''/usr/share/dict/words'' src"

text \<open>Flags whose single id is too large for a float.\<close>

definition huge_flags :: flags where
  "huge_flags = default_flags\<lparr>first_id_inclusive := 2 ^ 1024, last_id_exclusive := 2 ^ 1024 + 1\<rparr>"

section \<open>Properties\<close>

subsection \<open>Shuffling and drawing\<close>

lemma length_shuffle_from: "length (fst (shuffle_from k xs r)) = length xs"
  by (induction k arbitrary: xs r) (simp_all add: Let_def)

lemma mset_shuffle_from: "k < length xs \<Longrightarrow> mset (fst (shuffle_from k xs r)) = mset xs"
proof (induction k arbitrary: xs r)
  case 0
  then show ?case by simp
next
  case (Suc k)
  let ?j = "r 0 mod (Suc k + 1)"
  have "?j < Suc k + 1" by (rule mod_less_divisor) simp
  then have j: "?j < length xs" using Suc.prems by linarith
  have "mset (xs[Suc k := xs ! ?j, ?j := xs ! Suc k]) = mset xs"
    using j Suc.prems by (rule mset_swap)
  moreover have "k < length (xs[Suc k := xs ! ?j, ?j := xs ! Suc k])"
    using Suc.prems by simp
  ultimately show ?case using Suc.IH by (simp add: Let_def)
qed

lemma length_shuffle: "length (fst (shuffle xs r)) = length xs"
  by (simp add: shuffle_def length_shuffle_from)

lemma mset_shuffle: "mset (fst (shuffle xs r)) = mset xs"
proof (cases xs)
  case Nil
  then show ?thesis by (simp add: shuffle_def)
next
  case (Cons x ys)
  then show ?thesis by (simp add: shuffle_def mset_shuffle_from)
qed

lemma getitem_ok: "0 \<le> i \<Longrightarrow> i < int (length xs) \<Longrightarrow> getitem xs i = Inr (xs ! nat i)"
  by (simp add: getitem_def)

lemma getitem_empty: "getitem [] i = Inl IndexError"
  by (simp add: getitem_def)

lemma next_word_empty: "words s = [] \<Longrightarrow> next_word s = Inl IndexError"
  by (simp add: next_word_def getitem_empty)

lemma next_word_ok:
  assumes "pool_ok s"
  obtains s' where "next_word s = Inr (words s ! nat (word_index s), s')"
    and "pool_ok s'" and "mset (words s') = mset (words s)"
    and "word_index s' = (word_index s + 1) mod int (length (words s))"
proof (cases "(word_index s + 1) mod int (length (words s)) = 0")
  case True
  obtain ws' r' where sh: "shuffle (words s) (rng s) = (ws', r')" by (cases "shuffle (words s) (rng s)")
  have ws': "length ws' = length (words s)" "mset ws' = mset (words s)"
    using length_shuffle[of "words s" "rng s"] mset_shuffle[of "words s" "rng s"] sh by simp_all
  let ?s' = "s\<lparr>words := ws', word_index := 0, rng := r'\<rparr>"
  have "next_word s = Inr (words s ! nat (word_index s), ?s')"
    using assms True sh by (simp add: next_word_def pool_ok_def getitem_ok)
  moreover have "pool_ok ?s'" using assms ws' by (auto simp: pool_ok_def)
  ultimately show ?thesis using that[of ?s'] ws' True by simp
next
  case False
  let ?s' = "s\<lparr>word_index := (word_index s + 1) mod int (length (words s))\<rparr>"
  have "next_word s = Inr (words s ! nat (word_index s), ?s')"
    using assms False by (simp add: next_word_def pool_ok_def getitem_ok Let_def)
  moreover have "pool_ok ?s'" using assms by (simp add: pool_ok_def)
  ultimately show ?thesis using that[of ?s'] by simp
qed

lemma length_join: "ws \<noteq> [] \<Longrightarrow> int (length (join '' '' ws)) + 1 = cost ws"
  by (induction "'' ''" ws rule: join.induct) (simp_all add: cost_def)

lemma make_vchar_loop_ok:
  "pool_ok s \<Longrightarrow>
   \<exists>added s'. make_vchar_loop max_len chosen used s = Inr (chosen @ added, used + cost added, s') \<and>
     pool_ok s' \<and> mset (words s') = mset (words s) \<and> max_len \<le> used + cost added \<and>
     (used < max_len \<longrightarrow> added \<noteq> [])"
proof (induction max_len chosen used s rule: make_vchar_loop.induct)
  case (1 max_len chosen used s)
  show ?case
  proof (cases "used < max_len")
    case False
    then show ?thesis using "1.prems" by (simp add: cost_def make_vchar_loop.simps)
  next
    case True
    from "1.prems" obtain s1 where nw: "next_word s = Inr (words s ! nat (word_index s), s1)"
      and s1: "pool_ok s1" "mset (words s1) = mset (words s)"
      by (rule next_word_ok)
    let ?w = "words s ! nat (word_index s)"
    from "1.IH"[OF True nw refl s1(1)] obtain added s' where
      r: "make_vchar_loop max_len (chosen @ [?w]) (used + int (length ?w) + 1) s1 =
            Inr ((chosen @ [?w]) @ added, used + int (length ?w) + 1 + cost added, s')"
      and s': "pool_ok s'" "mset (words s') = mset (words s1)"
        "max_len \<le> used + int (length ?w) + 1 + cost added"
      by blast
    have "make_vchar_loop max_len chosen used s =
            Inr (chosen @ (?w # added), used + cost (?w # added), s')"
      using True nw r by (simp add: cost_def make_vchar_loop.simps[of max_len chosen])
    then show ?thesis using s' s1 by (intro exI[of _ "?w # added"] exI[of _ s']) (simp add: cost_def)
  qed
qed

subsection \<open>Bounded text\<close>

lemma make_vchar_ok:
  assumes "pool_ok s"
  obtains chosen s' where
    "make_vchar_loop max_len [] 0 s = Inr (chosen, cost chosen, s')"
    and "make_vchar max_len s = Inr (slice_to (join '' '' chosen) max_len, s')"
    and "pool_ok s'" and "mset (words s') = mset (words s)"
    and "max_len \<le> cost chosen" and "0 < max_len \<Longrightarrow> chosen \<noteq> []"
proof -
  from make_vchar_loop_ok[OF assms, of max_len "[]" 0] obtain added s' where
    l: "make_vchar_loop max_len [] 0 s = Inr ([] @ added, 0 + cost added, s')"
    and r: "pool_ok s'" "mset (words s') = mset (words s)" "max_len \<le> 0 + cost added"
      "0 < max_len \<longrightarrow> added \<noteq> []"
    by blast
  from l have "make_vchar max_len s = Inr (slice_to (join '' '' added) max_len, s')"
    by (simp add: make_vchar_def)
  with l r show ?thesis using that[of added s'] by simp
qed

lemma make_vchar_empty: "words s = [] \<Longrightarrow> 0 < max_len \<Longrightarrow> make_vchar max_len s = Inl IndexError"
  by (simp add: make_vchar_def make_vchar_loop.simps next_word_empty)

lemma length_slice_join:
  assumes "chosen \<noteq> []" "1 \<le> max_len" "max_len \<le> cost chosen"
  shows "length (slice_to (join '' '' chosen) max_len) = min (nat max_len) (length (join '' '' chosen))"
    and "max_len - 1 \<le> int (length (join '' '' chosen))"
    and "int (length (join '' '' chosen)) = cost chosen - 1"
  using assms length_join[of chosen] by (simp_all add: slice_to_def)

subsection \<open>Floats\<close>

lemma float_of_int_error: "float_of_int i = Inl e \<Longrightarrow> e = OverflowError"
  unfolding float_of_int_def Let_def
  by (simp only: sum.simps split: if_splits)

lemma bit_length_le: "n < 2 ^ k \<Longrightarrow> bit_length n \<le> k"
proof (induction k arbitrary: n)
  case 0
  then show ?case by (simp add: bit_length.simps)
next
  case (Suc k)
  show ?case
  proof (cases "n = 0")
    case True
    then show ?thesis by (simp add: bit_length.simps)
  next
    case False
    from Suc.prems have "n div 2 < 2 ^ k" by simp
    then have "bit_length (n div 2) \<le> k" by (rule Suc.IH)
    then show ?thesis using False by (subst bit_length.simps) simp
  qed
qed

lemma float_of_int_small: "\<bar>i\<bar> < 2 ^ 53 \<Longrightarrow> float_of_int i = Inr i"
proof -
  assume "\<bar>i\<bar> < 2 ^ 53"
  then have "nat \<bar>i\<bar> < 2 ^ 53" by (simp add: nat_less_iff)
  then have "bit_length (nat \<bar>i\<bar>) \<le> 53" by (rule bit_length_le)
  then show ?thesis unfolding float_of_int_def Let_def by (simp only: if_True)
qed

subsection \<open>Rows and the main loop\<close>

lemma make_row_fields:
  "make_row fl i s = Inr (r, s') \<Longrightarrow> seller_id r = i \<and> stock r = last_id_exclusive fl * 5 - i"
  by (auto simp: make_row_def split: sum.splits prod.splits)

lemma make_row_empty: "words s = [] \<Longrightarrow> make_row fl i s = Inl IndexError"
  by (simp add: make_row_def make_vchar_empty)

lemma make_row_ok:
  assumes "pool_ok s" "float_of_int i = Inr p"
  obtains r s' where "make_row fl i s = Inr (r, s')" and "pool_ok s'"
    and "mset (words s') = mset (words s)"
proof -
  from assms(1) obtain c1 s1 where 1: "make_vchar 48 s = Inr (slice_to (join '' '' c1) 48, s1)"
    and s1: "pool_ok s1" "mset (words s1) = mset (words s)" by (rule make_vchar_ok)
  from s1(1) obtain c2 s2 where 2: "make_vchar 2024 s1 = Inr (slice_to (join '' '' c2) 2024, s2)"
    and s2: "pool_ok s2" "mset (words s2) = mset (words s1)" by (rule make_vchar_ok)
  from s2(1) obtain c3 s3 where 3: "make_vchar 128 s2 = Inr (slice_to (join '' '' c3) 128, s3)"
    and s3: "pool_ok s3" "mset (words s3) = mset (words s2)" by (rule make_vchar_ok)
  from s3(1) obtain c4 s4 where 4: "make_vchar 7168 s3 = Inr (slice_to (join '' '' c4) 7168, s4)"
    and s4: "pool_ok s4" "mset (words s4) = mset (words s3)" by (rule make_vchar_ok)
  let ?r = "\<lparr>part = slice_to (join '' '' c1) 48, des = slice_to (join '' '' c2) 2024,
      seller_id = i, seller_name = slice_to (join '' '' c3) 128, price = p,
      notes' = slice_to (join '' '' c4) 7168, stock = (last_id_exclusive fl * 5) - i\<rparr>"
  have mr: "make_row fl i s = Inr (?r, s4)"
    unfolding make_row_def by (simp only: 1 2 3 4 assms(2) sum.case prod.case)
  have ms: "mset (words s4) = mset (words s)"
    by (simp only: s1 s2 s3 s4)
  show ?thesis by (rule that[OF mr s4(1) ms])
qed

lemma main_loop_done: "last_id_exclusive fl \<le> i \<Longrightarrow> main_loop fmt fl i out s = (out, None)"
  by (simp add: main_loop.simps)

lemma main_loop_empty:
  "words s = [] \<Longrightarrow>
   main_loop fmt fl i out s = (out, if i < last_id_exclusive fl then Some IndexError else None)"
  by (simp add: main_loop.simps make_row_empty)

lemma main_loop_rows:
  "\<exists>rows e. main_loop fmt fl i out s = (out @ map (record_format fmt (table_name fl)) rows, e) \<and>
     map seller_id rows = [i..i + int (length rows) - 1] \<and>
     map stock rows = map (\<lambda>j. last_id_exclusive fl * 5 - j) [i..i + int (length rows) - 1]"
proof (induction fmt fl i out s rule: main_loop.induct)
  case (1 fmt fl i out s)
  show ?case
  proof (cases "i < last_id_exclusive fl")
    case False
    then have "main_loop fmt fl i out s = (out @ map (record_format fmt (table_name fl)) [], None)"
      by (simp add: main_loop.simps)
    then show ?thesis by (intro exI[of _ "[]"] exI[of _ None]) simp
  next
    case True
    show ?thesis
    proof (cases "make_row fl i s")
      case (Inl e)
      then have "main_loop fmt fl i out s = (out @ map (record_format fmt (table_name fl)) [], Some e)"
        using True by (simp add: main_loop.simps)
      then show ?thesis by (intro exI[of _ "[]"] exI[of _ "Some e"]) simp
    next
      case (Inr p)
      obtain r s' where p: "p = (r, s')" by (cases p)
      from make_row_fields[OF Inr[unfolded p]]
      have f: "seller_id r = i" "stock r = last_id_exclusive fl * 5 - i" by simp_all
      from "1.IH"[OF True Inr[unfolded p] refl] obtain rows e where
        l: "main_loop fmt fl (i + 1) (out @ [record_format fmt (table_name fl) r]) s' =
             ((out @ [record_format fmt (table_name fl) r]) @ map (record_format fmt (table_name fl)) rows, e)"
        and ids: "map seller_id rows = [i + 1..i + 1 + int (length rows) - 1]"
        and st: "map stock rows = map (\<lambda>j. last_id_exclusive fl * 5 - j) [i + 1..i + 1 + int (length rows) - 1]"
        by blast
      have u: "[i..i + int (length (r # rows)) - 1] = i # [i + 1..i + 1 + int (length rows) - 1]"
        by (subst upto_rec1) (simp_all add: add.commute add.left_commute)
      have "main_loop fmt fl i out s = (out @ map (record_format fmt (table_name fl)) (r # rows), e)"
        using True Inr p l by (simp add: main_loop.simps[of fmt fl i])
      then show ?thesis
        by (intro exI[of _ "r # rows"] exI[of _ e]) (simp only: u list.map f ids st simp_thms)
    qed
  qed
qed

lemma main_loop_ok:
  "pool_ok s \<Longrightarrow> (\<And>j. i \<le> j \<Longrightarrow> j < last_id_exclusive fl \<Longrightarrow> float_of_int j \<noteq> Inl OverflowError) \<Longrightarrow>
   \<exists>rows. main_loop fmt fl i out s = (out @ map (record_format fmt (table_name fl)) rows, None) \<and>
     map seller_id rows = [i..last_id_exclusive fl - 1] \<and>
     map stock rows = map (\<lambda>j. last_id_exclusive fl * 5 - j) [i..last_id_exclusive fl - 1]"
proof (induction fmt fl i out s rule: main_loop.induct)
  case (1 fmt fl i out s)
  show ?case
  proof (cases "i < last_id_exclusive fl")
    case False
    then have "main_loop fmt fl i out s = (out @ map (record_format fmt (table_name fl)) [], None)"
      by (simp add: main_loop.simps)
    then show ?thesis using False by (intro exI[of _ "[]"]) simp
  next
    case True
    have "float_of_int i \<noteq> Inl OverflowError" using "1.prems"(2)[of i] True by simp
    then obtain p where fp: "float_of_int i = Inr p"
      using float_of_int_error[of i] by (cases "float_of_int i") auto
    from "1.prems"(1) fp obtain r s' where mr: "make_row fl i s = Inr (r, s')" and s': "pool_ok s'"
      by (rule make_row_ok)
    from make_row_fields[OF mr]
    have f: "seller_id r = i" "stock r = last_id_exclusive fl * 5 - i" by simp_all
    have "\<And>j. i + 1 \<le> j \<Longrightarrow> j < last_id_exclusive fl \<Longrightarrow> float_of_int j \<noteq> Inl OverflowError"
      using "1.prems"(2) by simp
    from "1.IH"[OF True mr refl s' this] obtain rows where
      l: "main_loop fmt fl (i + 1) (out @ [record_format fmt (table_name fl) r]) s' =
           ((out @ [record_format fmt (table_name fl) r]) @ map (record_format fmt (table_name fl)) rows, None)"
      and ids: "map seller_id rows = [i + 1..last_id_exclusive fl - 1]"
      and st: "map stock rows = map (\<lambda>j. last_id_exclusive fl * 5 - j) [i + 1..last_id_exclusive fl - 1]"
      by blast
    have u: "[i..last_id_exclusive fl - 1] = i # [i + 1..last_id_exclusive fl - 1]"
      using True by (subst upto_rec1) simp_all
    have "main_loop fmt fl i out s = (out @ map (record_format fmt (table_name fl)) (r # rows), None)"
      using True mr l by (simp add: main_loop.simps[of fmt fl i])
    then show ?thesis
      by (intro exI[of _ "r # rows"]) (simp only: u list.map f ids st simp_thms)
  qed
qed

subsection \<open>Loading\<close>

lemma init_ok:
  obtains s where "init_data_structure (Readable ls) (initial_state r) = Inr s"
    and "word_index s = 0" and "mset (words s) = mset (read_lines [] ls)"
    and "length (words s) = length (read_lines [] ls)"
proof -
  obtain ws' r' where sh: "shuffle (read_lines [] ls) r = (ws', r')" by (cases "shuffle (read_lines [] ls) r")
  have ws': "length ws' = length (read_lines [] ls)" "mset ws' = mset (read_lines [] ls)"
    using length_shuffle[of "read_lines [] ls" r] mset_shuffle[of "read_lines [] ls" r] sh by simp_all
  show ?thesis
    by (rule that[of "initial_state r\<lparr>words := ws', rng := r'\<rparr>"])
      (simp_all add: init_data_structure_def initial_state_def sh ws')
qed

section \<open>The claims\<close>

subsection \<open>Bounded text and the pool invariant\<close>

lemma pool_ok_pool4: "pool_ok pool4"
  by (simp add: pool_ok_def pool4_def)

lemma length_take_int:
  assumes "1 \<le> (n::int)"
  shows "int (length (take (nat n) xs)) = min n (int (length xs))"
proof -
  from assms obtain k where k: "n = int k" by (cases n) auto
  show ?thesis unfolding k by (simp add: min_def)
qed

lemma make_vchar_shape:
  assumes "pool_ok s" "1 \<le> max_len"
  obtains chosen s' where
    "make_vchar_loop max_len [] 0 s = Inr (chosen, cost chosen, s')"
    and "make_vchar max_len s = Inr (take (nat max_len) (join '' '' chosen), s')"
    and "int (length (join '' '' chosen)) = cost chosen - 1"
    and "max_len \<le> cost chosen"
    and "pool_ok s'" and "mset (words s') = mset (words s)"
proof -
  from assms(1) obtain chosen s' where
    l: "make_vchar_loop max_len [] 0 s = Inr (chosen, cost chosen, s')"
    and v: "make_vchar max_len s = Inr (slice_to (join '' '' chosen) max_len, s')"
    and s': "pool_ok s'" "mset (words s') = mset (words s)"
    and c: "max_len \<le> cost chosen" and ne: "0 < max_len \<longrightarrow> chosen \<noteq> []"
    by (rule make_vchar_ok[where max_len = max_len]) blast
  have ne': "chosen \<noteq> []" using ne assms(2) by simp
  have sl: "slice_to (join '' '' chosen) max_len = take (nat max_len) (join '' '' chosen)"
    using assms(2) by (simp add: slice_to_def)
  show ?thesis
    by (rule that[OF l v[unfolded sl] length_slice_join(3)[OF ne' assms(2) c] c s'])
qed

text \<open>
  Claim C1, as amended. For a pool that can be sampled and a bound \<open>max_len \<ge> 1\<close>,
  \<^verbatim>\<open>make_vchar(max_len)\<close> returns the first \<open>max_len\<close> characters of the chosen words
  joined by single spaces. Its length is the minimum of \<open>max_len\<close> and the length of the
  joined text, and the joined text has at least \<open>max_len - 1\<close> characters: the returned
  length is \<open>max_len\<close> or \<open>max_len - 1\<close>, not always \<open>max_len\<close>.
\<close>
theorem make_vchar_length:
  assumes "pool_ok s" and "1 \<le> max_len"
  shows "\<exists>chosen used s' v.
           make_vchar_loop max_len [] 0 s = Inr (chosen, used, s') \<and>
           make_vchar max_len s = Inr (v, s') \<and>
           v = take (nat max_len) (join '' '' chosen) \<and>
           int (length v) = min max_len (int (length (join '' '' chosen))) \<and>
           max_len - 1 \<le> int (length (join '' '' chosen))"
proof -
  from assms obtain chosen s' where
    l: "make_vchar_loop max_len [] 0 s = Inr (chosen, cost chosen, s')"
    and v: "make_vchar max_len s = Inr (take (nat max_len) (join '' '' chosen), s')"
    and j: "int (length (join '' '' chosen)) = cost chosen - 1"
    and c: "max_len \<le> cost chosen"
    by (rule make_vchar_shape)
  have "int (length (take (nat max_len) (join '' '' chosen))) =
          min max_len (int (length (join '' '' chosen)))"
    using assms(2) by (rule length_take_int)
  moreover have "max_len - 1 \<le> int (length (join '' '' chosen))" using j c by simp
  ultimately show ?thesis using l v by blast
qed

theorem make_vchar_length_witness:
  "pool_ok pool4 \<and> (1::int) \<le> 3 \<and>
   (\<exists>chosen used s' v.
      make_vchar_loop 3 [] 0 pool4 = Inr (chosen, used, s') \<and>
      make_vchar 3 pool4 = Inr (v, s') \<and>
      v = take (nat 3) (join '' '' chosen) \<and>
      int (length v) = min 3 (int (length (join '' '' chosen))) \<and>
      3 - 1 \<le> int (length (join '' '' chosen)))"
  using make_vchar_length[OF pool_ok_pool4, of 3] pool_ok_pool4 by simp

text \<open>
  The claim as stated fails: with the pool \<^verbatim>\<open>ab cd ef gh\<close> and bound 3 the loop stops
  after \<^verbatim>\<open>ab\<close> (\<^verbatim>\<open>used\<close> is 3) and the result has 2 characters.
\<close>

theorem make_vchar_exact_length_counterexample:
  "map_sum id fst (make_vchar 3 pool4) = Inr ''ab'' \<and>
   map_sum id (length \<circ> fst) (make_vchar 3 pool4) \<noteq> Inr 3"
  by (simp add: make_vchar_def make_vchar_loop.simps pool4_def next_word_def getitem_def slice_to_def)

text \<open>
  Claim C9. For a pool that can be sampled and \<open>max_len \<ge> 1\<close>, the string returned by
  \<^verbatim>\<open>make_vchar(max_len)\<close> has length \<open>max_len\<close> or \<open>max_len - 1\<close>, and it is
  \<open>max_len - 1\<close> exactly when \<^verbatim>\<open>used\<close>, the sum of the chosen word lengths plus one
  separator per word, equals \<open>max_len\<close> when the loop ends.
\<close>
theorem make_vchar_length_cases:
  assumes "pool_ok s" and "1 \<le> max_len"
  shows "\<exists>chosen used s' v.
           make_vchar_loop max_len [] 0 s = Inr (chosen, used, s') \<and>
           used = cost chosen \<and>
           make_vchar max_len s = Inr (v, s') \<and>
           (int (length v) = max_len \<or> int (length v) = max_len - 1) \<and>
           (int (length v) = max_len - 1 \<longleftrightarrow> used = max_len)"
proof -
  from assms obtain chosen s' where
    l: "make_vchar_loop max_len [] 0 s = Inr (chosen, cost chosen, s')"
    and v: "make_vchar max_len s = Inr (take (nat max_len) (join '' '' chosen), s')"
    and j: "int (length (join '' '' chosen)) = cost chosen - 1"
    and c: "max_len \<le> cost chosen"
    by (rule make_vchar_shape)
  let ?v = "take (nat max_len) (join '' '' chosen)"
  have len: "int (length ?v) = min max_len (cost chosen - 1)"
    using length_take_int[OF assms(2), of "join '' '' chosen"] j by simp
  have "int (length ?v) = max_len \<or> int (length ?v) = max_len - 1"
    using len c by (simp add: min_def)
  moreover have "int (length ?v) = max_len - 1 \<longleftrightarrow> cost chosen = max_len"
    using len c by (auto simp: min_def)
  ultimately show ?thesis using l v by blast
qed

theorem make_vchar_length_cases_witness:
  "pool_ok pool4 \<and> (1::int) \<le> 3 \<and>
   (\<exists>chosen used s' v.
      make_vchar_loop 3 [] 0 pool4 = Inr (chosen, used, s') \<and>
      used = cost chosen \<and>
      make_vchar 3 pool4 = Inr (v, s') \<and>
      (int (length v) = 3 \<or> int (length v) = 3 - 1) \<and>
      (int (length v) = 3 - 1 \<longleftrightarrow> used = 3))"
  using make_vchar_length_cases[OF pool_ok_pool4, of 3] pool_ok_pool4 by simp

lemma make_row_error:
  assumes "pool_ok s" "float_of_int i = Inl e"
  shows "make_row fl i s = Inl OverflowError"
proof -
  from assms(1) obtain c1 s1 where 1: "make_vchar 48 s = Inr (slice_to (join '' '' c1) 48, s1)"
    and s1: "pool_ok s1" by (rule make_vchar_ok)
  from s1 obtain c2 s2 where 2: "make_vchar 2024 s1 = Inr (slice_to (join '' '' c2) 2024, s2)"
    and s2: "pool_ok s2" by (rule make_vchar_ok)
  from s2 obtain c3 s3 where 3: "make_vchar 128 s2 = Inr (slice_to (join '' '' c3) 128, s3)"
    by (rule make_vchar_ok)
  have e: "float_of_int i = Inl OverflowError" using assms(2) float_of_int_error[OF assms(2)] by simp
  show ?thesis unfolding make_row_def by (simp only: 1 2 3 e sum.case prod.case)
qed

text \<open>
  Claim C10. From a pool that can be sampled, \<^verbatim>\<open>next_word\<close> and \<^verbatim>\<open>make_vchar\<close>
  return, and leave a pool that is a permutation of the one before, with the cursor inside
  it; a row-generation step does the same unless \<^verbatim>\<open>float(i)\<close> overflows.
\<close>
theorem pool_invariant:
  assumes "pool_ok s"
  shows "(\<exists>w s'. next_word s = Inr (w, s') \<and> pool_ok s' \<and> mset (words s') = mset (words s)) \<and>
         (\<exists>v s'. make_vchar max_len s = Inr (v, s') \<and> pool_ok s' \<and> mset (words s') = mset (words s)) \<and>
         (case make_row fl i s of
            Inl e \<Rightarrow> e = OverflowError
          | Inr (r, s') \<Rightarrow> pool_ok s' \<and> mset (words s') = mset (words s))"
proof (intro conjI)
  from assms obtain s' where "next_word s = Inr (words s ! nat (word_index s), s')"
    "pool_ok s'" "mset (words s') = mset (words s)" by (rule next_word_ok)
  then show "\<exists>w s'. next_word s = Inr (w, s') \<and> pool_ok s' \<and> mset (words s') = mset (words s)"
    by blast
next
  from assms obtain chosen s' where
    "make_vchar max_len s = Inr (slice_to (join '' '' chosen) max_len, s')"
    "pool_ok s'" "mset (words s') = mset (words s)" by (rule make_vchar_ok)
  then show "\<exists>v s'. make_vchar max_len s = Inr (v, s') \<and> pool_ok s' \<and> mset (words s') = mset (words s)"
    by blast
next
  show "case make_row fl i s of Inl e \<Rightarrow> e = OverflowError
        | Inr (r, s') \<Rightarrow> pool_ok s' \<and> mset (words s') = mset (words s)"
  proof (cases "float_of_int i")
    case (Inl e)
    with assms have "make_row fl i s = Inl OverflowError" by (rule make_row_error)
    then show ?thesis by simp
  next
    case (Inr p)
    with assms obtain r s' where "make_row fl i s = Inr (r, s')" "pool_ok s'"
      "mset (words s') = mset (words s)" by (rule make_row_ok)
    then show ?thesis by simp
  qed
qed

theorem pool_invariant_witness:
  "pool_ok pool4 \<and>
   (\<exists>w s'. next_word pool4 = Inr (w, s') \<and> pool_ok s' \<and> mset (words s') = mset (words pool4)) \<and>
   (\<exists>v s'. make_vchar 48 pool4 = Inr (v, s') \<and> pool_ok s' \<and> mset (words s') = mset (words pool4)) \<and>
   (case make_row default_flags 0 pool4 of
      Inl e \<Rightarrow> e = OverflowError
    | Inr (r, s') \<Rightarrow> pool_ok s' \<and> mset (words s') = mset (words pool4))"
  using pool_invariant[OF pool_ok_pool4, of 48 default_flags 0] pool_ok_pool4 by simp

subsection \<open>A full cycle of the pool\<close>

lemma next_word_wrap:
  assumes "pool_ok s" "(word_index s + 1) mod int (length (words s)) = 0"
  shows "next_word s =
           Inr (words s ! nat (word_index s),
                s\<lparr>words := fst (shuffle (words s) (rng s)), word_index := 0,
                  rng := snd (shuffle (words s) (rng s))\<rparr>)"
  using assms by (simp add: next_word_def pool_ok_def getitem_ok case_prod_beta)

lemma next_word_no_wrap:
  assumes "pool_ok s" "(word_index s + 1) mod int (length (words s)) \<noteq> 0"
  shows "next_word s =
           Inr (words s ! nat (word_index s),
                s\<lparr>word_index := (word_index s + 1) mod int (length (words s))\<rparr>)"
  using assms by (simp add: next_word_def pool_ok_def getitem_ok Let_def)

lemma next_words_to_end:
  "words s \<noteq> [] \<Longrightarrow> word_index s = int i \<Longrightarrow> i + n = length (words s) \<Longrightarrow> 0 < n \<Longrightarrow>
   next_words n s =
     Inr (drop i (words s),
          s\<lparr>words := fst (shuffle (words s) (rng s)), word_index := 0,
            rng := snd (shuffle (words s) (rng s))\<rparr>)"
proof (induction n arbitrary: s i)
  case 0
  then show ?case by simp
next
  case (Suc n)
  have ok: "pool_ok s" using Suc.prems by (simp add: pool_ok_def)
  have i: "i < length (words s)" using Suc.prems by simp
  show ?case
  proof (cases "n = 0")
    case True
    then have len: "length (words s) = Suc i" using Suc.prems by simp
    have "(word_index s + 1) mod int (length (words s)) = 0"
      using Suc.prems(2) len by (simp add: add.commute)
    from next_word_wrap[OF ok this]
    have nw: "next_word s =
           Inr (words s ! i,
                s\<lparr>words := fst (shuffle (words s) (rng s)), word_index := 0,
                  rng := snd (shuffle (words s) (rng s))\<rparr>)"
      using Suc.prems(2) by simp
    have "drop i (words s) = [words s ! i]"
      using len by (metis Cons_nth_drop_Suc drop_all lessI order_refl)
    then show ?thesis using True nw by simp
  next
    case False
    then have lt: "Suc i < length (words s)" using Suc.prems by simp
    have m: "(word_index s + 1) mod int (length (words s)) = int (Suc i)"
      using Suc.prems(2) lt by simp
    then have "(word_index s + 1) mod int (length (words s)) \<noteq> 0" by simp
    from next_word_no_wrap[OF ok this]
    have nw: "next_word s = Inr (words s ! i, s\<lparr>word_index := int (Suc i)\<rparr>)"
      using Suc.prems(2) m by simp
    let ?s1 = "s\<lparr>word_index := int (Suc i)\<rparr>"
    have "next_words n ?s1 =
            Inr (drop (Suc i) (words ?s1),
                 ?s1\<lparr>words := fst (shuffle (words ?s1) (rng ?s1)), word_index := 0,
                   rng := snd (shuffle (words ?s1) (rng ?s1))\<rparr>)"
      using Suc.prems False by (intro Suc.IH) simp_all
    then have rest: "next_words n ?s1 =
            Inr (drop (Suc i) (words s),
                 s\<lparr>words := fst (shuffle (words s) (rng s)), word_index := 0,
                   rng := snd (shuffle (words s) (rng s))\<rparr>)"
      by simp
    have d: "words s ! i # drop (Suc i) (words s) = drop i (words s)"
      using i by (rule Cons_nth_drop_Suc)
    have "next_words (Suc n) s =
            Inr (words s ! i # drop (Suc i) (words s),
                 s\<lparr>words := fst (shuffle (words s) (rng s)), word_index := 0,
                   rng := snd (shuffle (words s) (rng s))\<rparr>)"
      by (simp only: next_words.simps nw rest sum.case prod.case)
    then show ?thesis by (simp only: d)
  qed
qed

text \<open>
  Claim C4. From a non-empty pool of size \<open>k\<close> with the cursor at 0, \<open>k\<close> successive
  calls of \<^verbatim>\<open>next_word\<close> return the pool itself, element by element in its current
  (shuffled) order, so each element exactly once. The last of them reshuffles the pool,
  which stays a permutation of the same words, and resets the cursor: the next call
  returns the first element of the reshuffled pool.
\<close>
theorem next_word_full_cycle:
  assumes "words s \<noteq> []" and "word_index s = 0"
  shows "\<exists>s'. next_words (length (words s)) s = Inr (words s, s') \<and>
           words s' = fst (shuffle (words s) (rng s)) \<and>
           mset (words s') = mset (words s) \<and>
           word_index s' = 0 \<and>
           (\<exists>s''. next_word s' = Inr (words s' ! 0, s''))"
proof -
  let ?s' = "s\<lparr>words := fst (shuffle (words s) (rng s)), word_index := 0,
               rng := snd (shuffle (words s) (rng s))\<rparr>"
  have "next_words (length (words s)) s = Inr (drop 0 (words s), ?s')"
    using assms by (intro next_words_to_end) simp_all
  then have 1: "next_words (length (words s)) s = Inr (words s, ?s')" by simp
  have 2: "mset (words ?s') = mset (words s)" by (simp add: mset_shuffle)
  have "length (words ?s') = length (words s)" by (simp add: length_shuffle)
  then have "words ?s' \<noteq> []" using assms(1) by (metis length_0_conv)
  then have "pool_ok ?s'" by (simp add: pool_ok_def)
  then obtain s'' where "next_word ?s' = Inr (words ?s' ! nat (word_index ?s'), s'')"
    by (rule next_word_ok)
  then have 3: "\<exists>s''. next_word ?s' = Inr (words ?s' ! 0, s'')" by simp
  show ?thesis using 1 2 3 by (intro exI[of _ ?s']) simp
qed

theorem next_word_full_cycle_witness:
  "words pool4 \<noteq> [] \<and> word_index pool4 = 0 \<and>
   (\<exists>s'. next_words (length (words pool4)) pool4 = Inr (words pool4, s') \<and>
      words s' = fst (shuffle (words pool4) (rng pool4)) \<and>
      mset (words s') = mset (words pool4) \<and>
      word_index s' = 0 \<and>
      (\<exists>s''. next_word s' = Inr (words s' ! 0, s'')))"
proof -
  have h: "words pool4 \<noteq> []" "word_index pool4 = 0" by (simp_all add: pool4_def)
  show ?thesis using next_word_full_cycle[OF h] h by simp
qed

subsection \<open>Runs of the main program\<close>

lemma main_readable:
  assumes "fs (dict_filename fl) = Readable ls"
  obtains s where "main fmt fl fs r = main_loop fmt fl (first_id_inclusive fl) (use_lines fl) s"
    and "word_index s = 0" and "length (words s) = length (read_lines [] ls)"
    and "mset (words s) = mset (read_lines [] ls)"
proof -
  obtain s where i: "init_data_structure (Readable ls) (initial_state r) = Inr s"
    and s: "word_index s = 0" "mset (words s) = mset (read_lines [] ls)"
      "length (words s) = length (read_lines [] ls)"
    by (rule init_ok)
  have "main fmt fl fs r = main_loop fmt fl (first_id_inclusive fl) (use_lines fl) s"
    by (simp add: main_def assms i use_lines_def Let_def del: main_loop.simps)
  then show ?thesis using s by (intro that[of s])
qed

lemma main_unreadable:
  assumes "fs (dict_filename fl) = Unopenable \<or> fs (dict_filename fl) = Unreadable ls"
  shows "main fmt fl fs r = ([], Some IOError)"
  using assms by (auto simp: main_def init_data_structure_def)

lemma main_ok:
  assumes "fs (dict_filename fl) = Readable ls" and "read_lines [] ls \<noteq> []"
    and "\<And>j. first_id_inclusive fl \<le> j \<Longrightarrow> j < last_id_exclusive fl \<Longrightarrow>
           float_of_int j \<noteq> Inl OverflowError"
  shows "\<exists>rows. main fmt fl fs r =
            (use_lines fl @ map (record_format fmt (table_name fl)) rows, None) \<and>
          map seller_id rows = [first_id_inclusive fl..last_id_exclusive fl - 1] \<and>
          map stock rows =
            map (\<lambda>j. last_id_exclusive fl * 5 - j) [first_id_inclusive fl..last_id_exclusive fl - 1]"
proof -
  from assms(1) obtain s where
    m: "main fmt fl fs r = main_loop fmt fl (first_id_inclusive fl) (use_lines fl) s"
    and s: "word_index s = 0" "length (words s) = length (read_lines [] ls)"
    by (rule main_readable)
  have "words s \<noteq> []" using s(2) assms(2) by (metis length_0_conv)
  then have "pool_ok s" using s(1) by (simp add: pool_ok_def)
  from main_loop_ok[OF this assms(3), where fmt = fmt and out = "use_lines fl"]
  show ?thesis unfolding m by simp
qed

subsection \<open>Whole runs\<close>

lemma read_abc: "read_lines [] abc_lines = [''alpha'', ''beta'', ''gamma'']"
  by (simp add: abc_lines_def add_line_def alnum_def strip_def whitespace_def)

lemma read_blank: "read_lines [] blank_lines = []"
  by (simp add: blank_lines_def add_line_def alnum_def strip_def whitespace_def)

lemma dict_is_default: "dict_is src (dict_filename default_flags) = src"
  by (simp add: dict_is_def one_file_def default_flags_def)

lemma main_empty:
  assumes "fs (dict_filename fl) = Readable ls" and "read_lines [] ls = []"
  shows "main fmt fl fs r =
           (use_lines fl,
            if first_id_inclusive fl < last_id_exclusive fl then Some IndexError else None)"
proof -
  from assms(1) obtain s where
    m: "main fmt fl fs r = main_loop fmt fl (first_id_inclusive fl) (use_lines fl) s"
    and s: "length (words s) = length (read_lines [] ls)"
    by (rule main_readable)
  have "words s = []" using s assms(2) by simp
  then show ?thesis unfolding m by (rule main_loop_empty)
qed

lemma main_degenerate:
  assumes "fs (dict_filename fl) = Readable ls"
    and "last_id_exclusive fl \<le> first_id_inclusive fl"
  shows "main fmt fl fs r = (use_lines fl, None)"
proof -
  from assms(1) obtain s where
    m: "main fmt fl fs r = main_loop fmt fl (first_id_inclusive fl) (use_lines fl) s"
    by (rule main_readable)
  show ?thesis unfolding m using assms(2) by (rule main_loop_done)
qed

text \<open>
  Claim C6. Whatever the run, its output is the optional \<^verbatim>\<open>use\<close> line followed by
  the records printed, the \<open>k\<close>-th of them (from 0) for index
  \<open>i = first_id_inclusive + k\<close>, and each record has \<^verbatim>\<open>seller_id\<close> \<open>i\<close> and
  \<^verbatim>\<open>stock\<close> \<open>last_id_exclusive * 5 - i\<close>.
\<close>
theorem stock_of_every_row:
  "\<exists>pre rows e. main fmt fl fs r = (pre @ map (record_format fmt (table_name fl)) rows, e) \<and>
     (pre = [] \<or> pre = use_lines fl) \<and>
     map seller_id rows = [first_id_inclusive fl..first_id_inclusive fl + int (length rows) - 1] \<and>
     map stock rows = map (\<lambda>i. last_id_exclusive fl * 5 - i) (map seller_id rows)"
proof (cases "fs (dict_filename fl)")
  case (Readable ls)
  then obtain s where
    m: "main fmt fl fs r = main_loop fmt fl (first_id_inclusive fl) (use_lines fl) s"
    by (rule main_readable)
  from main_loop_rows[of fmt fl "first_id_inclusive fl" "use_lines fl" s] obtain rows e where
    "main_loop fmt fl (first_id_inclusive fl) (use_lines fl) s =
       (use_lines fl @ map (record_format fmt (table_name fl)) rows, e)"
    "map seller_id rows = [first_id_inclusive fl..first_id_inclusive fl + int (length rows) - 1]"
    "map stock rows = map (\<lambda>j. last_id_exclusive fl * 5 - j)
       [first_id_inclusive fl..first_id_inclusive fl + int (length rows) - 1]"
    by blast
  then show ?thesis unfolding m
    by (intro exI[of _ "use_lines fl"] exI[of _ rows] exI[of _ e]) simp
next
  case Unopenable
  then have "main fmt fl fs r = ([], Some IOError)" by (simp add: main_unreadable)
  then show ?thesis
    by (intro exI[of _ "[]"] exI[of _ "[]"] exI[of _ "Some IOError"]) simp
next
  case (Unreadable ls)
  then have "main fmt fl fs r = ([], Some IOError)" using main_unreadable[of fs fl ls] by simp
  then show ?thesis
    by (intro exI[of _ "[]"] exI[of _ "[]"] exI[of _ "Some IOError"]) simp
qed

text \<open>
  Claim C2, as amended. When the dictionary opens and loading it yields an empty pool, the
  program validates nothing: it prints the \<^verbatim>\<open>use\<close> line if the flag asks for it, and
  then, if \<open>first_id_inclusive < last_id_exclusive\<close>, the first \<^verbatim>\<open>next_word\<close> call
  raises \<^verbatim>\<open>IndexError\<close> before any record is printed; if the range is empty the run
  ends normally.
\<close>
theorem empty_pool_run:
  assumes "fs (dict_filename fl) = Readable ls" and "read_lines [] ls = []"
  shows "main fmt_02f fl fs r =
           (use_lines fl,
            if first_id_inclusive fl < last_id_exclusive fl then Some IndexError else None)"
  using assms by (rule main_empty)

theorem empty_pool_run_witness:
  "dict_is (Readable blank_lines) (dict_filename default_flags) = Readable blank_lines \<and>
   read_lines [] blank_lines = [] \<and>
   main two_decimals default_flags (dict_is (Readable blank_lines)) zeros =
     (use_lines default_flags,
      if first_id_inclusive default_flags < last_id_exclusive default_flags
      then Some IndexError else None)"
  using empty_pool_run[where fs = "dict_is (Readable blank_lines)" and fl = default_flags
      and ls = blank_lines and fmt_02f = two_decimals and r = zeros]
  by (simp add: dict_is_default read_blank)

text \<open>
  The claim as stated fails: with a dictionary of punctuation and blank lines the run
  prints the \<^verbatim>\<open>use\<close> line and then fails with \<^verbatim>\<open>IndexError\<close> inside
  \<^verbatim>\<open>next_word\<close>, and with an empty range it raises nothing at all.
\<close>

theorem empty_pool_counterexample:
  "main two_decimals default_flags (dict_is (Readable blank_lines)) zeros =
     ([''use sql-serv;''], Some IndexError) \<and>
   main two_decimals (default_flags\<lparr>last_id_exclusive := 0\<rparr>) (dict_is (Readable blank_lines)) zeros =
     ([''use sql-serv;''], None)"
  by (simp add: main_def dict_is_def one_file_def default_flags_def init_data_structure_def
      initial_state_def blank_lines_def add_line_def alnum_def strip_def whitespace_def
      shuffle_def main_loop.simps make_row_def make_vchar_def make_vchar_loop.simps
      next_word_def getitem_def)

text \<open>
  Claim C7, as amended. When \<open>last_id_exclusive \<le> first_id_inclusive\<close> and the
  dictionary opens, the program raises no error: it loads the dictionary, prints the
  \<^verbatim>\<open>use\<close> line if the flag asks for it, prints no record and ends normally.
\<close>
theorem degenerate_run:
  assumes "fs (dict_filename fl) = Readable ls"
    and "last_id_exclusive fl \<le> first_id_inclusive fl"
  shows "main fmt_02f fl fs r = (use_lines fl, None)"
  using assms by (rule main_degenerate)

theorem degenerate_run_witness:
  "dict_is (Readable abc_lines) (dict_filename (default_flags\<lparr>last_id_exclusive := 0\<rparr>)) = Readable abc_lines \<and>
   last_id_exclusive (default_flags\<lparr>last_id_exclusive := 0\<rparr>)
     \<le> first_id_inclusive (default_flags\<lparr>last_id_exclusive := 0\<rparr>) \<and>
   main two_decimals (default_flags\<lparr>last_id_exclusive := 0\<rparr>) (dict_is (Readable abc_lines)) zeros =
     (use_lines (default_flags\<lparr>last_id_exclusive := 0\<rparr>), None)"
proof -
  have 1: "dict_is (Readable abc_lines) (dict_filename (default_flags\<lparr>last_id_exclusive := 0\<rparr>)) =
             Readable abc_lines"
    by (simp add: dict_is_def one_file_def default_flags_def)
  have 2: "last_id_exclusive (default_flags\<lparr>last_id_exclusive := 0\<rparr>)
             \<le> first_id_inclusive (default_flags\<lparr>last_id_exclusive := 0\<rparr>)"
    by (simp add: default_flags_def)
  show ?thesis
    using degenerate_run[where fs = "dict_is (Readable abc_lines)"
        and fl = "default_flags\<lparr>last_id_exclusive := 0\<rparr>" and ls = abc_lines
        and fmt_02f = two_decimals and r = zeros] 1 2
    by simp
qed

text \<open>The claim as stated fails: with \<open>last_id_exclusive = 0\<close> the run ends normally.\<close>

theorem degenerate_run_counterexample:
  "main two_decimals (default_flags\<lparr>last_id_exclusive := 0\<rparr>) (dict_is (Readable abc_lines)) zeros =
     ([''use sql-serv;''], None)"
  by (simp add: main_def dict_is_def one_file_def default_flags_def init_data_structure_def
      initial_state_def abc_lines_def add_line_def alnum_def strip_def whitespace_def
      shuffle_def zeros_def main_loop.simps)

text \<open>
  Claim C8. When the dictionary file cannot be opened, or a read of it fails, the run
  ends with \<^verbatim>\<open>IOError\<close> (the resource error of the specification) and has printed
  nothing.
\<close>
theorem dictionary_failure_aborts:
  assumes "fs (dict_filename fl) = Unopenable \<or> fs (dict_filename fl) = Unreadable ls"
  shows "main fmt_02f fl fs r = ([], Some IOError)"
  using assms by (rule main_unreadable)

theorem dictionary_failure_aborts_witness:
  "(one_file ''/nonexistent'' (Readable []) (dict_filename default_flags) = Unopenable \<or>
    one_file ''/nonexistent'' (Readable []) (dict_filename default_flags) = Unreadable []) \<and>
   main two_decimals default_flags (one_file ''/nonexistent'' (Readable [])) zeros = ([], Some IOError)"
proof -
  have 1: "one_file ''/nonexistent'' (Readable []) (dict_filename default_flags) = Unopenable \<or>
    one_file ''/nonexistent'' (Readable []) (dict_filename default_flags) = Unreadable []"
    by (simp add: one_file_def default_flags_def)
  show ?thesis
    using dictionary_failure_aborts[where fs = "one_file ''/nonexistent'' (Readable [])"
        and fl = default_flags and ls = "[]" and fmt_02f = two_decimals and r = zeros] 1
    by simp
qed


lemma floats_default: "first_id_inclusive default_flags \<le> j \<Longrightarrow> j < last_id_exclusive default_flags \<Longrightarrow>
    float_of_int j \<noteq> Inl OverflowError"
proof -
  assume "first_id_inclusive default_flags \<le> j" "j < last_id_exclusive default_flags"
  then have "\<bar>j\<bar> < 2 ^ 53" by (simp add: default_flags_def)
  then show ?thesis by (simp add: float_of_int_small)
qed

lemma main_default:
  assumes "fs (dict_filename default_flags) = Readable ls" and "read_lines [] ls \<noteq> []"
  shows "\<exists>rows. main fmt default_flags fs r =
           (''use sql-serv;'' # map (record_format fmt ''Medium_Size'') rows, None) \<and>
           map seller_id rows = [0, 1, 2, 3] \<and> map stock rows = [20, 19, 18, 17]"
proof -
  from main_ok[where fs = fs and fl = default_flags and fmt = fmt and r = r, OF assms floats_default]
  obtain rows where
    m: "main fmt default_flags fs r =
          (use_lines default_flags @ map (record_format fmt (table_name default_flags)) rows, None)"
    and i: "map seller_id rows =
          [first_id_inclusive default_flags..last_id_exclusive default_flags - 1]"
    and t: "map stock rows = map (\<lambda>j. last_id_exclusive default_flags * 5 - j)
          [first_id_inclusive default_flags..last_id_exclusive default_flags - 1]"
    by blast
  have u: "[first_id_inclusive default_flags..last_id_exclusive default_flags - 1] = [0, 1, 2, 3]"
    by (simp add: default_flags_def upto_rec1)
  show ?thesis
    using m i t unfolding u by (intro exI[of _ rows]) (simp add: default_flags_def use_lines_def)
qed

text \<open>
  Claim C3, as amended. With the flags of the source (ids 0 to 4, table
  \<^verbatim>\<open>Medium_Size\<close>, database \<^verbatim>\<open>sql-serv\<close>, use line on) and any dictionary that loads
  to three words, the output is the line \<^verbatim>\<open>use sql-serv;\<close> (in lower case) followed by
  exactly 4 insert statements for \<^verbatim>\<open>Medium_Size\<close>, with \<^verbatim>\<open>seller_id\<close> 0, 1, 2, 3 and
  \<^verbatim>\<open>stock\<close> 20, 19, 18, 17, and the run ends normally.
\<close>
theorem end_to_end_example:
  assumes "fs (dict_filename default_flags) = Readable ls"
    and "length (read_lines [] ls) = 3"
  shows "\<exists>rows. main fmt_02f default_flags fs r =
           (''use sql-serv;'' # map (record_format fmt_02f ''Medium_Size'') rows, None) \<and>
           length rows = 4 \<and>
           map seller_id rows = [0, 1, 2, 3] \<and>
           map stock rows = [20, 19, 18, 17]"
proof -
  have "read_lines [] ls \<noteq> []" using assms(2) by auto
  from main_default[where fs = fs and fmt = fmt_02f and r = r, OF assms(1) this] obtain rows where
    m: "main fmt_02f default_flags fs r =
          (''use sql-serv;'' # map (record_format fmt_02f ''Medium_Size'') rows, None)"
    and i: "map seller_id rows = [0, 1, 2, 3]" and t: "map stock rows = [20, 19, 18, 17]"
    by (elim exE conjE)
  have "length (map seller_id rows) = 4" unfolding i by simp
  then have "length rows = 4" by simp
  then show ?thesis by (intro exI[of _ rows] conjI m i t)
qed

theorem end_to_end_example_witness:
  "dict_is (Readable abc_lines) (dict_filename default_flags) = Readable abc_lines \<and>
   length (read_lines [] abc_lines) = 3 \<and>
   (\<exists>rows. main two_decimals default_flags (dict_is (Readable abc_lines)) zeros =
      (''use sql-serv;'' # map (record_format two_decimals ''Medium_Size'') rows, None) \<and>
      length rows = 4 \<and>
      map seller_id rows = [0, 1, 2, 3] \<and>
      map stock rows = [20, 19, 18, 17])"
  using end_to_end_example[where fs = "dict_is (Readable abc_lines)" and ls = abc_lines
      and fmt_02f = two_decimals and r = zeros]
  by (simp add: dict_is_default read_abc)

text \<open>The claim as stated fails on the first line, which is in lower case.\<close>

theorem use_line_case_counterexample:
  "hd (fst (main two_decimals default_flags (dict_is (Readable abc_lines)) zeros)) = ''use sql-serv;'' \<and>
   hd (fst (main two_decimals default_flags (dict_is (Readable abc_lines)) zeros)) \<noteq> ''USE sql-serv;''"
proof -
  have "read_lines [] abc_lines \<noteq> []" by (simp add: read_abc)
  from main_default[where fs = "dict_is (Readable abc_lines)" and fmt = two_decimals and r = zeros,
      OF dict_is_default this]
  obtain rows where "main two_decimals default_flags (dict_is (Readable abc_lines)) zeros =
      (''use sql-serv;'' # map (record_format two_decimals ''Medium_Size'') rows, None)"
    by (elim exE conjE)
  then show ?thesis by simp
qed

lemma bit_length_pow2: "bit_length (2 ^ k) = Suc k"
proof (induction k)
  case 0
  show ?case by (subst bit_length.simps) (simp add: bit_length.simps[of 0])
next
  case (Suc k)
  have "bit_length (2 ^ Suc k) = Suc (bit_length (2 ^ Suc k div 2))"
    by (subst bit_length.simps) simp
  then show ?case using Suc.IH by simp
qed

lemma float_of_int_huge: "float_of_int (2 ^ 1024) = Inl OverflowError"
proof -
  have a: "nat \<bar>2 ^ 1024 :: int\<bar> = 2 ^ 1024" by (simp add: nat_power_eq)
  have n: "bit_length (2 ^ 1024) = 1025" using bit_length_pow2[of 1024] by simp
  have q: "(2 ^ 1024 :: nat) div 2 ^ 972 = 2 ^ 52" "(2 ^ 1024 :: nat) mod 2 ^ 972 = 0"
    by (simp_all add: power_diff[symmetric] flip: power_add)
  show ?thesis
    unfolding float_of_int_def Let_def a n
    by (simp add: q flip: power_add)
qed

lemma main_overflow:
  "main fmt huge_flags (dict_is (Readable abc_lines)) r = ([''use sql-serv;''], Some OverflowError)"
proof -
  have d: "dict_is (Readable abc_lines) (dict_filename huge_flags) = Readable abc_lines"
    by (simp add: huge_flags_def dict_is_def one_file_def default_flags_def)
  from d obtain s where
    m: "main fmt huge_flags (dict_is (Readable abc_lines)) r =
          main_loop fmt huge_flags (first_id_inclusive huge_flags) (use_lines huge_flags) s"
    and s: "word_index s = 0" "length (words s) = length (read_lines [] abc_lines)"
    by (rule main_readable[where fs = "dict_is (Readable abc_lines)" and fl = huge_flags
          and ls = abc_lines and fmt = fmt and r = r])
  have "words s \<noteq> []" using s(2) by (simp add: read_abc flip: length_greater_0_conv)
  then have ok: "pool_ok s" using s(1) by (simp add: pool_ok_def)
  have f: "float_of_int (first_id_inclusive huge_flags) = Inl OverflowError"
    using float_of_int_huge by (simp add: huge_flags_def)
  have mr: "make_row huge_flags (first_id_inclusive huge_flags) s = Inl OverflowError"
    using ok f by (rule make_row_error)
  have lt: "first_id_inclusive huge_flags < last_id_exclusive huge_flags"
    by (simp add: huge_flags_def)
  have u: "use_lines huge_flags = [''use sql-serv;'']"
    by (simp add: use_lines_def huge_flags_def default_flags_def)
  show ?thesis unfolding m
    by (subst main_loop.simps) (simp only: lt if_True mr sum.case u)
qed

text \<open>
  Claim C5, as amended. For flags with \<open>first_id_inclusive \<le> last_id_exclusive\<close>,
  when the dictionary opens and loads to a non-empty pool and \<^verbatim>\<open>float(i)\<close> does not
  overflow for any index of the range, the run ends normally and its output is the
  optional \<^verbatim>\<open>use\<close> line followed by exactly
  \<open>last_id_exclusive - first_id_inclusive\<close> records, one per index of the range, in
  ascending order.
\<close>

theorem main_row_count:
  assumes "fs (dict_filename fl) = Readable ls" and "read_lines [] ls \<noteq> []"
    and "first_id_inclusive fl \<le> last_id_exclusive fl"
    and "\<forall>j. first_id_inclusive fl \<le> j \<and> j < last_id_exclusive fl \<longrightarrow>
           float_of_int j \<noteq> Inl OverflowError"
  shows "\<exists>rows. main fmt_02f fl fs r =
           (use_lines fl @ map (record_format fmt_02f (table_name fl)) rows, None) \<and>
           int (length rows) = last_id_exclusive fl - first_id_inclusive fl \<and>
           map seller_id rows = [first_id_inclusive fl..last_id_exclusive fl - 1]"
proof -
  have "\<And>j. first_id_inclusive fl \<le> j \<Longrightarrow> j < last_id_exclusive fl \<Longrightarrow>
          float_of_int j \<noteq> Inl OverflowError"
    using assms(4) by blast
  from main_ok[where fs = fs and fmt = fmt_02f and r = r, OF assms(1,2) this] obtain rows where
    m: "main fmt_02f fl fs r =
          (use_lines fl @ map (record_format fmt_02f (table_name fl)) rows, None)"
    and i: "map seller_id rows = [first_id_inclusive fl..last_id_exclusive fl - 1]"
    by blast
  have "length (map seller_id rows) = length [first_id_inclusive fl..last_id_exclusive fl - 1]"
    unfolding i ..
  then have "int (length rows) = last_id_exclusive fl - first_id_inclusive fl"
    using assms(3) by simp
  then show ?thesis by (intro exI[of _ rows] conjI m i)
qed

theorem main_row_count_witness:
  "dict_is (Readable abc_lines) (dict_filename default_flags) = Readable abc_lines \<and>
   read_lines [] abc_lines \<noteq> [] \<and>
   first_id_inclusive default_flags \<le> last_id_exclusive default_flags \<and>
   (\<exists>rows. main two_decimals default_flags (dict_is (Readable abc_lines)) zeros =
      (use_lines default_flags @ map (record_format two_decimals (table_name default_flags)) rows, None) \<and>
      int (length rows) = last_id_exclusive default_flags - first_id_inclusive default_flags \<and>
      map seller_id rows = [first_id_inclusive default_flags..last_id_exclusive default_flags - 1])"
proof -
  have 1: "dict_is (Readable abc_lines) (dict_filename default_flags) = Readable abc_lines"
    by (rule dict_is_default)
  have 2: "read_lines [] abc_lines \<noteq> []" by (simp add: read_abc)
  have 3: "first_id_inclusive default_flags \<le> last_id_exclusive default_flags"
    by (simp add: default_flags_def)
  have 4: "\<forall>j. first_id_inclusive default_flags \<le> j \<and> j < last_id_exclusive default_flags \<longrightarrow>
      float_of_int j \<noteq> Inl OverflowError"
    using floats_default by blast
  note 5 = main_row_count[where fs = "dict_is (Readable abc_lines)" and fl = default_flags
      and ls = abc_lines and fmt_02f = two_decimals and r = zeros, OF 1 2 3 4]
  show ?thesis by (intro conjI 1 2 3 5)
qed

text \<open>
  The claim as stated, for every configuration, fails: with the flags of the source and a
  dictionary of punctuation and blank lines the run prints no record though the range has
  4 indices; with an id of \<open>2 ^ 1024\<close> it fails on \<^verbatim>\<open>float(i)\<close> before the first
  record; and when the dictionary does not open it prints nothing.
\<close>

theorem row_count_counterexample:
  "last_id_exclusive default_flags - first_id_inclusive default_flags = 4 \<and>
   main two_decimals default_flags (dict_is (Readable blank_lines)) zeros =
     ([''use sql-serv;''], Some IndexError) \<and>
   last_id_exclusive huge_flags - first_id_inclusive huge_flags = 1 \<and>
   main two_decimals huge_flags (dict_is (Readable abc_lines)) zeros =
     ([''use sql-serv;''], Some OverflowError) \<and>
   main two_decimals default_flags (dict_is Unopenable) zeros = ([], Some IOError)"
proof (intro conjI)
  show "last_id_exclusive default_flags - first_id_inclusive default_flags = 4"
    by (simp add: default_flags_def)
  show "main two_decimals default_flags (dict_is (Readable blank_lines)) zeros =
     ([''use sql-serv;''], Some IndexError)"
    by (simp add: main_def dict_is_def one_file_def default_flags_def init_data_structure_def
        initial_state_def blank_lines_def add_line_def alnum_def strip_def whitespace_def
        shuffle_def main_loop.simps make_row_def make_vchar_def make_vchar_loop.simps
        next_word_def getitem_def)
  show "last_id_exclusive huge_flags - first_id_inclusive huge_flags = 1"
    by (simp add: huge_flags_def)
  show "main two_decimals huge_flags (dict_is (Readable abc_lines)) zeros =
     ([''use sql-serv;''], Some OverflowError)"
    by (rule main_overflow)
  show "main two_decimals default_flags (dict_is Unopenable) zeros = ([], Some IOError)"
    using main_unreadable[where fs = "dict_is Unopenable" and fl = default_flags
        and fmt = two_decimals and r = zeros]
    by (simp add: dict_is_default)
qed

end
